theory Spec2Isabelle
  imports Main "HOL-Library.Word"
begin

section \<open>The confidential store: contract FHEZamaQuiz\<close>

text \<open>
  The Solidity contract keeps two mappings keyed by address, \<^verbatim>\<open>_userAnswer\<close> (an
  \<^verbatim>\<open>euint32\<close>, which is a \<^verbatim>\<open>bytes32\<close> handle) and \<^verbatim>\<open>_hasAnswered\<close> (a bool). A Solidity
  mapping is total: a key never written reads as the zero value. The access-control list
  that \<^verbatim>\<open>FHE.allow\<close> and \<^verbatim>\<open>FHE.allowThis\<close> extend lives outside the contract; it is
  kept here as a third component so that "the rest of the state" includes the grants.
\<close>

type_synonym address = "160 word"
type_synonym bytes32 = "256 word"
type_synonym euint32 = bytes32
type_synonym externalEuint32 = bytes32
type_synonym bytes = "8 word list"

record quiz_state =
  s_userAnswer :: "address \<Rightarrow> euint32"
  s_hasAnswered :: "address \<Rightarrow> bool"
  s_allowed :: "(euint32 \<times> address) set"

text \<open>
  The FHE library is not part of the repository. What \<^verbatim>\<open>submitAnswer\<close> needs from it is
  taken as a parameter: the address of the contract itself (the grantee of
  \<^verbatim>\<open>FHE.allowThis\<close>) and the input verification \<^verbatim>\<open>FHE.fromExternal\<close>, which for a sender,
  an external handle and a proof either yields the verified handle or reverts (\<open>None\<close>).
\<close>

record fhe_lib =
  contract_address :: address
  fromExternal :: "address \<Rightarrow> externalEuint32 \<Rightarrow> bytes \<Rightarrow> euint32 option"

datatype revert = Error_string string | Input_verification_failed

definition deployed :: quiz_state where
  "deployed = \<lparr> s_userAnswer = (\<lambda>_. 0), s_hasAnswered = (\<lambda>_. False), s_allowed = {} \<rparr>"

text \<open>
  \<^verbatim>\<open>submitAnswer\<close>, with \<open>sender\<close> for \<^verbatim>\<open>msg.sender\<close>. A revert rolls the transaction back,
  so the failing branches return no state; the caller keeps the one it had.
\<close>

definition submitAnswer ::
  "fhe_lib \<Rightarrow> address \<Rightarrow> externalEuint32 \<Rightarrow> bytes \<Rightarrow> quiz_state \<Rightarrow> revert + quiz_state" where
  "submitAnswer fhe sender answerEncrypted inputProof s =
     (if s_hasAnswered s sender then Inl (Error_string ''Already answered'')
      else case fromExternal fhe sender answerEncrypted inputProof of
        None \<Rightarrow> Inl Input_verification_failed
      | Some val \<Rightarrow>
          Inr (s\<lparr> s_userAnswer := (s_userAnswer s)(sender := val),
                  s_allowed := insert (val, contract_address fhe)
                                 (insert (val, sender) (s_allowed s)),
                  s_hasAnswered := (s_hasAnswered s)(sender := True) \<rparr>))"

definition hasAnswered :: "quiz_state \<Rightarrow> address \<Rightarrow> bool" where
  "hasAnswered s user = s_hasAnswered s user"

definition getEncryptedAnswer :: "quiz_state \<Rightarrow> address \<Rightarrow> euint32" where
  "getEncryptedAnswer s user = s_userAnswer s user"

text \<open>
  The contract's external surface as calls: each call returns its result (or the revert)
  together with the state the ledger holds afterwards.
\<close>

datatype call =
  SubmitAnswer externalEuint32 bytes
| HasAnswered address
| GetEncryptedAnswer address

datatype retval = Unit | Bool bool | Handle euint32

fun exec :: "fhe_lib \<Rightarrow> address \<Rightarrow> call \<Rightarrow> quiz_state \<Rightarrow> (revert + retval) \<times> quiz_state" where
  "exec fhe sender (SubmitAnswer answerEncrypted inputProof) s =
     (case submitAnswer fhe sender answerEncrypted inputProof s of
        Inl e \<Rightarrow> (Inl e, s)
      | Inr s' \<Rightarrow> (Inr Unit, s'))"
| "exec fhe sender (HasAnswered user) s = (Inr (Bool (hasAnswered s user)), s)"
| "exec fhe sender (GetEncryptedAnswer user) s = (Inr (Handle (getEncryptedAnswer s user)), s)"

text \<open>A history of the ledger: the calls in the order they were committed, each with its sender.\<close>

fun run :: "fhe_lib \<Rightarrow> (address \<times> call) list \<Rightarrow> quiz_state \<Rightarrow> quiz_state" where
  "run fhe [] s = s"
| "run fhe ((sender, c) # txs) s = run fhe txs (snd (exec fhe sender c s))"

text \<open>The record invariant of the data model: the flag is set exactly when the handle is not the zero handle.\<close>

definition flag_iff_handle :: "quiz_state \<Rightarrow> address \<Rightarrow> bool" where
  "flag_iff_handle s u = (hasAnswered s u = (getEncryptedAnswer s u \<noteq> 0))"

section \<open>The codec: \<^verbatim>\<open>stringToBigInt\<close> and \<^verbatim>\<open>bigIntToString\<close>\<close>

text \<open>
  A JavaScript string is a sequence of UTF-16 code units; a \<^verbatim>\<open>Uint8Array\<close> or \<^verbatim>\<open>Buffer\<close> is a
  sequence of bytes; a \<^verbatim>\<open>bigint\<close> is an unbounded integer. The hexadecimal strings that the
  two functions build on the way hold ASCII only and are kept as HOL strings.
\<close>

type_synonym js_string = "16 word list"

datatype js_error = SyntaxError | InvalidArgument | Thrown js_string

text \<open>An ASCII literal as a JavaScript string.\<close>

definition js :: "string \<Rightarrow> js_string" where
  "js s = map (\<lambda>c. of_nat (of_char c)) s"

subsection \<open>The library functions the codec calls\<close>

text \<open>
  \<^verbatim>\<open>toUtf8Bytes\<close> of ethers walks the code units: one byte below \<open>0x80\<close>, two below
  \<open>0x800\<close>, four for a high surrogate followed by a low one (anything else after a high
  surrogate is the error "invalid surrogate pair"), three otherwise. The shifts and masks
  of the library are written as \<open>div\<close> and \<open>mod\<close> by powers of two.
\<close>

definition is_high :: "nat \<Rightarrow> bool" where
  "is_high c = (0xD800 \<le> c \<and> c < 0xDC00)"

definition is_low :: "nat \<Rightarrow> bool" where
  "is_low c = (0xDC00 \<le> c \<and> c < 0xE000)"

definition emit :: "nat list \<Rightarrow> js_error + nat list \<Rightarrow> js_error + nat list" where
  "emit ns r = (case r of Inl e \<Rightarrow> Inl e | Inr bs \<Rightarrow> Inr (ns @ bs))"

fun utf8Encode :: "nat list \<Rightarrow> js_error + nat list" where
  "utf8Encode [] = Inr []"
| "utf8Encode (c # cs) =
     (if c < 0x80 then emit [c] (utf8Encode cs)
      else if c < 0x800 then emit [c div 64 + 0xC0, c mod 64 + 0x80] (utf8Encode cs)
      else if is_high c then
        (case cs of
           [] \<Rightarrow> Inl InvalidArgument
         | c2 # cs' \<Rightarrow>
             if is_low c2 then
               (let pair = 0x10000 + (c mod 0x400) * 0x400 + c2 mod 0x400
                in emit [pair div 0x40000 + 0xF0, (pair div 0x1000) mod 64 + 0x80,
                         (pair div 64) mod 64 + 0x80, pair mod 64 + 0x80] (utf8Encode cs'))
             else Inl InvalidArgument)
      else emit [c div 0x1000 + 0xE0, (c div 64) mod 64 + 0x80, c mod 64 + 0x80] (utf8Encode cs))"

definition toUtf8Bytes :: "js_string \<Rightarrow> js_error + bytes" where
  "toUtf8Bytes str = map_sum id (map of_nat) (utf8Encode (map unat str))"

text \<open>
  A string is well-formed UTF-16 when every high surrogate is followed by a low one and no
  low surrogate stands alone: these are the strings that are Unicode text and have a UTF-8
  encoding.
\<close>

fun wellFormed :: "nat list \<Rightarrow> bool" where
  "wellFormed [] = True"
| "wellFormed (c # cs) =
     (if is_high c then (case cs of [] \<Rightarrow> False | c2 # cs' \<Rightarrow> is_low c2 \<and> wellFormed cs')
      else \<not> is_low c \<and> c < 0x10000 \<and> wellFormed cs)"

definition wellFormedUtf16 :: "js_string \<Rightarrow> bool" where
  "wellFormedUtf16 str = wellFormed (map unat str)"

text \<open>
  \<^verbatim>\<open>buf.toString("utf8")\<close> of Node decodes UTF-8 and puts U+FFFD for every maximal
  ill-formed part: a lead byte is accepted with the continuation bytes its range allows
  (no overlong forms, no surrogates, nothing above U+10FFFF), and a code point from
  \<open>0x10000\<close> on becomes a surrogate pair. \<open>decodeStep\<close> reads one lead byte and answers
  the code units and how many of the following bytes it used.
\<close>

definition cont :: "nat \<Rightarrow> bool" where
  "cont b = (0x80 \<le> b \<and> b < 0xC0)"

definition second3 :: "nat \<Rightarrow> nat \<Rightarrow> bool" where
  "second3 b0 b1 =
     (if b0 = 0xE0 then 0xA0 \<le> b1 \<and> b1 < 0xC0
      else if b0 = 0xED then 0x80 \<le> b1 \<and> b1 < 0xA0
      else cont b1)"

definition second4 :: "nat \<Rightarrow> nat \<Rightarrow> bool" where
  "second4 b0 b1 =
     (if b0 = 0xF0 then 0x90 \<le> b1 \<and> b1 < 0xC0
      else if b0 = 0xF4 then 0x80 \<le> b1 \<and> b1 < 0x90
      else cont b1)"

definition replacement :: nat where
  "replacement = 0xFFFD"

definition surrogates :: "nat \<Rightarrow> nat list" where
  "surrogates cp = [0xD800 + (cp - 0x10000) div 0x400, 0xDC00 + (cp - 0x10000) mod 0x400]"

fun decodeStep :: "nat \<Rightarrow> nat list \<Rightarrow> nat list \<times> nat" where
  "decodeStep b0 rest =
     (if b0 < 0x80 then ([b0], 0)
      else if 0xC2 \<le> b0 \<and> b0 < 0xE0 then
        (case rest of
           b1 # _ \<Rightarrow> if cont b1 then ([(b0 - 0xC0) * 64 + (b1 - 0x80)], 1) else ([replacement], 0)
         | [] \<Rightarrow> ([replacement], 0))
      else if 0xE0 \<le> b0 \<and> b0 < 0xF0 then
        (case rest of
           b1 # b2 # _ \<Rightarrow>
             if \<not> second3 b0 b1 then ([replacement], 0)
             else if \<not> cont b2 then ([replacement], 1)
             else ([(b0 - 0xE0) * 0x1000 + (b1 - 0x80) * 64 + (b2 - 0x80)], 2)
         | [b1] \<Rightarrow> if second3 b0 b1 then ([replacement], 1) else ([replacement], 0)
         | [] \<Rightarrow> ([replacement], 0))
      else if 0xF0 \<le> b0 \<and> b0 < 0xF5 then
        (case rest of
           b1 # b2 # b3 # _ \<Rightarrow>
             if \<not> second4 b0 b1 then ([replacement], 0)
             else if \<not> cont b2 then ([replacement], 1)
             else if \<not> cont b3 then ([replacement], 2)
             else (surrogates ((b0 - 0xF0) * 0x40000 + (b1 - 0x80) * 0x1000
                                + (b2 - 0x80) * 64 + (b3 - 0x80)), 3)
         | [b1, b2] \<Rightarrow>
             if \<not> second4 b0 b1 then ([replacement], 0)
             else if \<not> cont b2 then ([replacement], 1)
             else ([replacement], 2)
         | [b1] \<Rightarrow> if second4 b0 b1 then ([replacement], 1) else ([replacement], 0)
         | [] \<Rightarrow> ([replacement], 0))
      else ([replacement], 0))"

fun utf8Decode :: "nat list \<Rightarrow> nat list" where
  "utf8Decode [] = []"
| "utf8Decode (b # bs) = (case decodeStep b bs of (us, k) \<Rightarrow> us @ utf8Decode (drop k bs))"

definition Buffer_toString_utf8 :: "bytes \<Rightarrow> js_string" where
  "Buffer_toString_utf8 buf = map of_nat (utf8Decode (map unat buf))"

text \<open>
  Hexadecimal digits. \<open>hexChar\<close> is applied to digits below 16 only. \<^verbatim>\<open>hexlify\<close> writes
  two lower-case digits for each byte after the prefix \<^verbatim>\<open>0x\<close>.
\<close>

definition hexChar :: "nat \<Rightarrow> char" where
  "hexChar d = ''0123456789abcdef'' ! d"

definition digitValue :: "char \<Rightarrow> nat option" where
  "digitValue ch =
     (let k = (of_char ch :: nat) in
      if 48 \<le> k \<and> k \<le> 57 then Some (k - 48)
      else if 97 \<le> k \<and> k \<le> 102 then Some (k - 87)
      else if 65 \<le> k \<and> k \<le> 70 then Some (k - 55)
      else None)"

definition hexlify :: "bytes \<Rightarrow> string" where
  "hexlify data = ''0x'' @ concat (map (\<lambda>b. [hexChar (unat b div 16), hexChar (unat b mod 16)]) data)"

text \<open>
  \<^verbatim>\<open>BigInt(s)\<close> on a string that starts with \<^verbatim>\<open>0x\<close>: the value of the hexadecimal digits
  that follow, and a SyntaxError when there is none or one of them is not a digit. The
  codec passes no other kind of string, so the other literal forms are left out.
\<close>

definition BigInt :: "string \<Rightarrow> js_error + int" where
  "BigInt s =
     (if take 2 s = ''0x'' \<and> drop 2 s \<noteq> [] \<and> list_all (\<lambda>ch. digitValue ch \<noteq> None) (drop 2 s)
      then Inr (foldl (\<lambda>acc ch. 16 * acc + int (the (digitValue ch))) 0 (drop 2 s))
      else Inl SyntaxError)"

text \<open>\<^verbatim>\<open>bn.toString(16)\<close>: the digits without leading zeros, \<^verbatim>\<open>0\<close> for zero, a minus sign first for a negative number.\<close>

function digits16 :: "int \<Rightarrow> nat list" where
  "digits16 n = (if n < 16 then [nat n] else digits16 (n div 16) @ [nat (n mod 16)])"
  by pat_completeness auto
termination
  by (relation "measure nat") auto

declare digits16.simps [simp del]

definition toString16 :: "int \<Rightarrow> string" where
  "toString16 bn =
     (if bn < 0 then CHR ''-'' # map hexChar (digits16 (- bn))
      else map hexChar (digits16 bn))"

text \<open>\<^verbatim>\<open>Buffer.from(hex, "hex")\<close>: one byte for every two digits, stopping at the first pair that is not two digits.\<close>

fun Buffer_from_hex :: "string \<Rightarrow> bytes" where
  "Buffer_from_hex (a # b # rest) =
     (case (digitValue a, digitValue b) of
        (Some h, Some l) \<Rightarrow> of_nat (16 * h + l) # Buffer_from_hex rest
      | _ \<Rightarrow> [])"
| "Buffer_from_hex _ = []"

subsection \<open>The two functions of \<^verbatim>\<open>encoding.ts\<close>\<close>

definition stringToBigInt :: "js_string \<Rightarrow> js_error + int" where
  "stringToBigInt str =
     (case toUtf8Bytes str of
        Inl e \<Rightarrow> Inl e
      | Inr bytes \<Rightarrow> (let hex = drop 2 (hexlify bytes) in BigInt (''0x'' @ hex)))"

definition bigIntToString :: "int \<Rightarrow> js_string" where
  "bigIntToString bn =
     (let hex = toString16 bn;
          hex = (if length hex mod 2 \<noteq> 0 then ''0'' @ hex else hex)
      in Buffer_toString_utf8 (Buffer_from_hex hex))"

text \<open>The width of the store's ciphertext slot (\<^verbatim>\<open>euint32\<close>).\<close>

definition W :: nat where
  "W = 32"

text \<open>Decoding the encoding of a text gives the text back.\<close>

definition round_trips :: "js_string \<Rightarrow> bool" where
  "round_trips t = (case stringToBigInt t of Inl e \<Rightarrow> False | Inr n \<Rightarrow> bigIntToString n = t)"

text \<open>
  The specification's description of the encoded value: the bytes packed big-endian into
  an unsigned integer. \<open>nibbles\<close> and \<open>value16\<close> are the same number read digit by digit.
\<close>

definition be_value :: "bytes \<Rightarrow> int" where
  "be_value data = foldl (\<lambda>acc b. 256 * acc + uint b) 0 data"

definition nibbles :: "bytes \<Rightarrow> nat list" where
  "nibbles data = concat (map (\<lambda>b. [unat b div 16, unat b mod 16]) data)"

definition value16 :: "nat list \<Rightarrow> int" where
  "value16 ns = foldl (\<lambda>acc d. 16 * acc + int d) 0 ns"

section \<open>The submission orchestrator: hook \<^verbatim>\<open>useFHEZamaQuiz\<close>\<close>





text \<open>
  The two state variables that \<^verbatim>\<open>submitAnswer\<close> of the hook writes, and what the call
  meets outside the repository: the ABI lookup with the encryption method it names, the
  encryption, the write contract with the transaction it sends and waits for, the
  re-read, and the text of a thrown error.
\<close>

record hook_state =
  message :: js_string
  isProcessing :: bool

type_synonym encrypted_input = "bytes32 \<times> bytes"

record hook_env =
  functionAbi :: "js_string option option"
  encryptWith :: "js_string \<Rightarrow> int \<Rightarrow> js_error + encrypted_input option"
  writeContract :: "(encrypted_input \<Rightarrow> js_error option) option"
  refreshAnswer :: "js_error option"
  errorText :: "js_error \<Rightarrow> js_string"

definition idle :: hook_state where
  "idle = \<lparr> message = [], isProcessing = False \<rparr>"

definition getEncryptionMethodFor :: "hook_env \<Rightarrow> js_string option \<times> js_string option" where
  "getEncryptionMethodFor env =
     (case functionAbi env of
        None \<Rightarrow> (None, Some (js ''Function ABI not found for submitAnswer''))
      | Some method \<Rightarrow> (method, None))"

text \<open>
  The body of the \<^verbatim>\<open>try\<close> block: the message it sets last, or the error it throws.
\<close>

definition submit_body :: "hook_env \<Rightarrow> js_string \<Rightarrow> js_error + js_string" where
  "submit_body env answerString =
     (case getEncryptionMethodFor env of (method, error) \<Rightarrow>
        (case method of
           None \<Rightarrow> Inr (case error of Some e \<Rightarrow> e | None \<Rightarrow> js ''Encryption method not found'')
         | Some m \<Rightarrow>
             if m = [] then Inr (case error of Some e \<Rightarrow> e | None \<Rightarrow> js ''Encryption method not found'')
             else
               (case stringToBigInt answerString of
                  Inl err \<Rightarrow> Inl err
                | Inr encoded \<Rightarrow>
                    (case encryptWith env m encoded of
                       Inl err \<Rightarrow> Inl err
                     | Inr None \<Rightarrow> Inr (js ''Encryption failed'')
                     | Inr (Some enc) \<Rightarrow>
                         (case writeContract env of
                            None \<Rightarrow> Inr (js ''Contract not available'')
                          | Some send \<Rightarrow>
                              (case send enc of
                                 Some err \<Rightarrow> Inl err
                               | None \<Rightarrow>
                                   (case refreshAnswer env of
                                      Some err \<Rightarrow> Inl err
                                    | None \<Rightarrow> Inr (0x2705 # js '' Quiz submitted successfully!''))))))))"

text \<open>The state while the call is in flight, after the two writes that precede the \<^verbatim>\<open>try\<close>.\<close>

definition submit_start :: "js_string \<Rightarrow> hook_state \<Rightarrow> hook_state" where
  "submit_start answerString st =
     st\<lparr> isProcessing := True,
         message := js ''Submitting answer '' @ [0x22] @ answerString @ [0x22] @ js ''...'' \<rparr>"

text \<open>
  \<^verbatim>\<open>submitAnswer\<close> of the hook, from the state at the call to the state when its promise
  settles. The callback is a closure made by \<^verbatim>\<open>useCallback\<close> during a render: the
  \<^verbatim>\<open>isProcessing\<close> its guard tests is the constant of that render (\<open>captured\<close>), not
  the state at the time of the call, which only the setters change. The guard returns at
  once; otherwise the \<^verbatim>\<open>catch\<close> turns a thrown error into a message that starts with the
  cross mark U+274C, and the \<^verbatim>\<open>finally\<close> clears the flag.
\<close>

definition hook_submitAnswer :: "hook_env \<Rightarrow> bool \<Rightarrow> js_string \<Rightarrow> hook_state \<Rightarrow> hook_state" where
  "hook_submitAnswer env captured answerString st =
     (if answerString = [] \<or> captured then st
      else
        (let st1 = submit_start answerString st;
             st2 = (case submit_body env answerString of
                      Inl err \<Rightarrow> st1\<lparr> message := [0x274C, 0x20] @ errorText env err \<rparr>
                    | Inr msg \<Rightarrow> st1\<lparr> message := msg \<rparr>)
         in st2\<lparr> isProcessing := False \<rparr>))"

section \<open>Concrete inputs\<close>

text \<open>An input verification that accepts every non-zero handle as it is.\<close>

definition fhe0 :: fhe_lib where
  "fhe0 = \<lparr> contract_address = 0xC0DE,
            fromExternal = (\<lambda>sender h p. if h = 0 then None else Some h) \<rparr>"

text \<open>The state after address 1 has submitted the handle 7 to a fresh store.\<close>

definition after_one :: quiz_state where
  "after_one = \<lparr> s_userAnswer = (\<lambda>_. 0)(1 := 7), s_hasAnswered = (\<lambda>_. False)(1 := True),
                 s_allowed = {(7, 0xC0DE), (7, 1)} \<rparr>"

text \<open>Collaborators that all succeed, and one whose transaction is reverted by the store.\<close>

definition env_ok :: hook_env where
  "env_ok = \<lparr> functionAbi = Some (Some (js ''add32'')),
              encryptWith = (\<lambda>m v. Inr (Some (of_int v, []))),
              writeContract = Some (\<lambda>enc. None),
              refreshAnswer = None,
              errorText = (\<lambda>e. case e of Thrown m \<Rightarrow> m | _ \<Rightarrow> js ''error'') \<rparr>"

definition env_revert :: hook_env where
  "env_revert = env_ok \<lparr> writeContract := Some (\<lambda>enc. Some (Thrown (js ''Already answered''))) \<rparr>"

section \<open>Properties of the store\<close>

lemma submitAnswer_Inr_iff:
  "submitAnswer fhe u e p s = Inr s' \<longleftrightarrow>
     (\<not> s_hasAnswered s u \<and> (\<exists>v. fromExternal fhe u e p = Some v \<and>
        s' = s\<lparr> s_userAnswer := (s_userAnswer s)(u := v),
                s_allowed := insert (v, contract_address fhe) (insert (v, u) (s_allowed s)),
                s_hasAnswered := (s_hasAnswered s)(u := True) \<rparr>))"
  by (auto simp: submitAnswer_def split: option.splits)

lemma exec_keeps_answered:
  assumes "s_hasAnswered s u"
  shows "s_hasAnswered (snd (exec fhe a c s)) u \<and>
         s_userAnswer (snd (exec fhe a c s)) u = s_userAnswer s u"
proof (cases c)
  case (SubmitAnswer e p)
  show ?thesis
  proof (cases "submitAnswer fhe a e p s")
    case (Inl err)
    with SubmitAnswer assms show ?thesis by simp
  next
    case (Inr s')
    then have "\<not> s_hasAnswered s a" and "\<exists>v. s' = s\<lparr> s_userAnswer := (s_userAnswer s)(a := v),
                s_allowed := insert (v, contract_address fhe) (insert (v, a) (s_allowed s)),
                s_hasAnswered := (s_hasAnswered s)(a := True) \<rparr>"
      by (auto simp: submitAnswer_Inr_iff)
    with assms have "a \<noteq> u" by auto
    with Inr SubmitAnswer assms \<open>\<exists>v. s' = _\<close> show ?thesis by auto
  qed
qed (use assms in simp_all)

lemma run_keeps_answered:
  "s_hasAnswered s u \<Longrightarrow>
     s_hasAnswered (run fhe txs s) u \<and> s_userAnswer (run fhe txs s) u = s_userAnswer s u"
proof (induction txs arbitrary: s)
  case Nil
  then show ?case by simp
next
  case (Cons tx txs)
  obtain a c where tx: "tx = (a, c)" by (cases tx)
  from exec_keeps_answered [OF Cons.prems, of fhe a c]
  have step: "s_hasAnswered (snd (exec fhe a c s)) u"
    and same: "s_userAnswer (snd (exec fhe a c s)) u = s_userAnswer s u" by simp_all
  from Cons.IH [OF step] same tx show ?case by simp
qed

lemma run_invariant:
  assumes "P s" and "\<And>s a c. P s \<Longrightarrow> P (snd (exec fhe a c s))"
  shows "P (run fhe txs s)"
  using assms(1)
proof (induction txs arbitrary: s)
  case Nil
  then show ?case by simp
next
  case (Cons tx txs)
  obtain a c where "tx = (a, c)" by (cases tx)
  with Cons.IH [OF assms(2) [OF Cons.prems]] show ?case by simp
qed

lemma exec_unanswered_zero:
  assumes "\<forall>u. \<not> s_hasAnswered s u \<longrightarrow> s_userAnswer s u = 0"
  shows "\<forall>u. \<not> s_hasAnswered (snd (exec fhe a c s)) u \<longrightarrow> s_userAnswer (snd (exec fhe a c s)) u = 0"
proof (cases c)
  case (SubmitAnswer e p)
  show ?thesis
  proof (cases "submitAnswer fhe a e p s")
    case (Inl err)
    with SubmitAnswer assms show ?thesis by simp
  next
    case (Inr s')
    then obtain h where "s' = s\<lparr> s_userAnswer := (s_userAnswer s)(a := h),
                s_allowed := insert (h, contract_address fhe) (insert (h, a) (s_allowed s)),
                s_hasAnswered := (s_hasAnswered s)(a := True) \<rparr>"
      by (auto simp: submitAnswer_Inr_iff)
    with assms have "\<forall>u. \<not> s_hasAnswered s' u \<longrightarrow> s_userAnswer s' u = 0" by simp
    with Inr SubmitAnswer show ?thesis by simp
  qed
qed (use assms in simp_all)

lemma run_unanswered_zero:
  "\<not> s_hasAnswered (run fhe txs deployed) u \<Longrightarrow> s_userAnswer (run fhe txs deployed) u = 0"
proof -
  have "\<forall>u. \<not> s_hasAnswered (run fhe txs deployed) u \<longrightarrow> s_userAnswer (run fhe txs deployed) u = 0"
    by (rule run_invariant) (simp add: deployed_def, rule exec_unanswered_zero)
  then show "\<not> s_hasAnswered (run fhe txs deployed) u \<Longrightarrow> s_userAnswer (run fhe txs deployed) u = 0"
    by blast
qed

lemma exec_flag_iff_handle:
  assumes nz: "\<forall>a e p h. fromExternal fhe a e p = Some h \<longrightarrow> h \<noteq> 0"
    and inv: "\<forall>v. flag_iff_handle s v"
  shows "\<forall>v. flag_iff_handle (snd (exec fhe a c s)) v"
proof (cases c)
  case (SubmitAnswer e p)
  show ?thesis
  proof (cases "submitAnswer fhe a e p s")
    case (Inl err)
    with SubmitAnswer inv show ?thesis by simp
  next
    case (Inr s')
    then obtain h where h: "fromExternal fhe a e p = Some h"
      and s': "s' = s\<lparr> s_userAnswer := (s_userAnswer s)(a := h),
                s_allowed := insert (h, contract_address fhe) (insert (h, a) (s_allowed s)),
                s_hasAnswered := (s_hasAnswered s)(a := True) \<rparr>"
      by (auto simp: submitAnswer_Inr_iff)
    from nz h have "h \<noteq> 0" by blast
    with inv s' have "\<forall>v. flag_iff_handle s' v"
      by (simp add: flag_iff_handle_def hasAnswered_def getEncryptedAnswer_def)
    with Inr SubmitAnswer show ?thesis by simp
  qed
qed (use inv in simp_all)

lemma run_flag_iff_handle:
  assumes "\<forall>a e p h. fromExternal fhe a e p = Some h \<longrightarrow> h \<noteq> 0"
  shows "flag_iff_handle (run fhe txs deployed) u"
proof -
  have "\<forall>v. flag_iff_handle (run fhe txs deployed) v"
  proof (rule run_invariant)
    show "\<forall>v. flag_iff_handle deployed v"
      by (simp add: flag_iff_handle_def hasAnswered_def getEncryptedAnswer_def deployed_def)
  next
    fix s a c
    assume "\<forall>v. flag_iff_handle s v"
    with assms show "\<forall>v. flag_iff_handle (snd (exec fhe a c s)) v"
      by (rule exec_flag_iff_handle)
  qed
  then show ?thesis by blast
qed

lemma fhe0_nonzero: "\<forall>a e p h. fromExternal fhe0 a e p = Some h \<longrightarrow> h \<noteq> 0"
  by (simp add: fhe0_def)

lemma submit_one: "submitAnswer fhe0 1 7 [] deployed = Inr after_one"
  by (simp add: submitAnswer_def fhe0_def deployed_def after_one_def)

text \<open>
  C1. Once \<open>submitAnswer\<close> has succeeded for \<open>u\<close>, then after any further history of calls
  \<open>hasAnswered u\<close> is still true and the stored handle is the one of the first
  submission, and every later \<open>submitAnswer\<close> by \<open>u\<close>, whatever its arguments, reverts
  with "Already answered" and leaves the whole state as it was.
\<close>

theorem submit_first_writer_wins:
  assumes "submitAnswer fhe u e p s = Inr s1"
  shows "hasAnswered (run fhe txs s1) u
       \<and> getEncryptedAnswer (run fhe txs s1) u = getEncryptedAnswer s1 u
       \<and> submitAnswer fhe u e' p' (run fhe txs s1) = Inl (Error_string ''Already answered'')
       \<and> exec fhe u (SubmitAnswer e' p') (run fhe txs s1)
           = (Inl (Error_string ''Already answered''), run fhe txs s1)"
proof -
  from assms have "s_hasAnswered s1 u"
    by (auto simp: submitAnswer_Inr_iff)
  then have later: "s_hasAnswered (run fhe txs s1) u"
    and same: "s_userAnswer (run fhe txs s1) u = s_userAnswer s1 u"
    using run_keeps_answered [of s1 u fhe txs] by simp_all
  from later have "submitAnswer fhe u e' p' (run fhe txs s1) = Inl (Error_string ''Already answered'')"
    by (simp add: submitAnswer_def)
  with later same show ?thesis
    by (simp add: hasAnswered_def getEncryptedAnswer_def)
qed

theorem submit_first_writer_wins_witness:
  "hasAnswered (run fhe0 [(2, SubmitAnswer 8 []), (1, SubmitAnswer 9 [])] after_one) 1
   \<and> getEncryptedAnswer (run fhe0 [(2, SubmitAnswer 8 []), (1, SubmitAnswer 9 [])] after_one) 1 = 7
   \<and> exec fhe0 1 (SubmitAnswer 5 [1, 2]) (run fhe0 [(2, SubmitAnswer 8 []), (1, SubmitAnswer 9 [])] after_one)
       = (Inl (Error_string ''Already answered''),
          run fhe0 [(2, SubmitAnswer 8 []), (1, SubmitAnswer 9 [])] after_one)"
proof -
  have "getEncryptedAnswer after_one 1 = 7"
    by (simp add: getEncryptedAnswer_def after_one_def)
  with submit_first_writer_wins [OF submit_one, of "[(2, SubmitAnswer 8 []), (1, SubmitAnswer 9 [])]" 5 "[1, 2]"]
  show ?thesis by simp
qed

text \<open>
  C4. In every state reached from the deployed contract by any history of calls, and for
  every identity, the flag is set exactly when the handle is not the zero handle, and
  every call preserves this, provided the input verification of the FHE library (which
  is outside the repository) never yields the zero handle.
\<close>

theorem flag_iff_handle_reachable:
  assumes "\<forall>a e p h. fromExternal fhe a e p = Some h \<longrightarrow> h \<noteq> 0"
  shows "flag_iff_handle (run fhe txs deployed) u
       \<and> ((\<forall>v. flag_iff_handle s v) \<longrightarrow> flag_iff_handle (snd (exec fhe a c s)) u)"
  using run_flag_iff_handle [OF assms] exec_flag_iff_handle [OF assms] by blast

theorem flag_iff_handle_reachable_witness:
  "flag_iff_handle (run fhe0 [(1, SubmitAnswer 7 []), (2, SubmitAnswer 0 []), (3, HasAnswered 1)] deployed) 1
   \<and> flag_iff_handle (run fhe0 [(1, SubmitAnswer 7 []), (2, SubmitAnswer 0 []), (3, HasAnswered 1)] deployed) 2
   \<and> hasAnswered (run fhe0 [(1, SubmitAnswer 7 []), (2, SubmitAnswer 0 []), (3, HasAnswered 1)] deployed) 1
   \<and> \<not> hasAnswered (run fhe0 [(1, SubmitAnswer 7 []), (2, SubmitAnswer 0 []), (3, HasAnswered 1)] deployed) 2"
proof -
  have "hasAnswered (run fhe0 [(1, SubmitAnswer 7 []), (2, SubmitAnswer 0 []), (3, HasAnswered 1)] deployed) 1"
    and "\<not> hasAnswered (run fhe0 [(1, SubmitAnswer 7 []), (2, SubmitAnswer 0 []), (3, HasAnswered 1)] deployed) 2"
    by (simp_all add: submitAnswer_def fhe0_def deployed_def hasAnswered_def)
  with flag_iff_handle_reachable [OF fhe0_nonzero] show ?thesis by blast
qed

text \<open>
  C5. A successful \<open>submitAnswer\<close> by \<open>u\<close> leaves the flag and the handle of every other
  identity as they were.
\<close>

theorem submit_frame:
  assumes "submitAnswer fhe u e p s = Inr s'" and "v \<noteq> u"
  shows "hasAnswered s' v = hasAnswered s v \<and> getEncryptedAnswer s' v = getEncryptedAnswer s v"
  using assms by (auto simp: submitAnswer_Inr_iff hasAnswered_def getEncryptedAnswer_def)

theorem submit_frame_witness:
  "\<not> hasAnswered after_one 2 \<and> getEncryptedAnswer after_one 2 = 0
   \<and> hasAnswered after_one 1 \<and> getEncryptedAnswer after_one 1 = 7"
proof -
  have "(2 :: address) \<noteq> 1" by simp
  from submit_frame [OF submit_one this]
  have "hasAnswered after_one 2 = hasAnswered deployed 2"
    and "getEncryptedAnswer after_one 2 = getEncryptedAnswer deployed 2" by simp_all
  then show ?thesis
    by (simp add: hasAnswered_def getEncryptedAnswer_def deployed_def after_one_def)
qed

text \<open>
  C6. In the deployed (initial) state \<open>hasAnswered u\<close> is false and \<open>getEncryptedAnswer u\<close>
  is the zero handle for every identity; and after any history of calls,
  \<open>getEncryptedAnswer u\<close> is still the zero handle for every identity whose flag is not
  set, that is, who has never submitted successfully.
\<close>

theorem initial_state_unanswered:
  "\<not> hasAnswered deployed u \<and> getEncryptedAnswer deployed u = 0
   \<and> (\<not> hasAnswered (run fhe txs deployed) u \<longrightarrow> getEncryptedAnswer (run fhe txs deployed) u = 0)"
  using run_unanswered_zero [of fhe txs u]
  by (simp add: hasAnswered_def getEncryptedAnswer_def deployed_def)

theorem initial_state_unanswered_witness:
  "\<not> hasAnswered deployed 2 \<and> getEncryptedAnswer deployed 2 = 0
   \<and> \<not> hasAnswered (run fhe0 [(1, SubmitAnswer 7 []), (2, SubmitAnswer 0 [])] deployed) 2
   \<and> getEncryptedAnswer (run fhe0 [(1, SubmitAnswer 7 []), (2, SubmitAnswer 0 [])] deployed) 2 = 0"
proof -
  have "\<not> hasAnswered (run fhe0 [(1, SubmitAnswer 7 []), (2, SubmitAnswer 0 [])] deployed) 2"
    by (simp add: submitAnswer_def fhe0_def deployed_def hasAnswered_def)
  with initial_state_unanswered [of 2 fhe0 "[(1, SubmitAnswer 7 []), (2, SubmitAnswer 0 [])]"]
  show ?thesis by blast
qed

text \<open>
  C7. \<open>getEncryptedAnswer\<close> is a pure read: the call returns the stored handle and the
  state it was given, so a second call right after it returns the same handle and again
  the same state, whoever the callers are.
\<close>

theorem getEncryptedAnswer_pure_read:
  "exec fhe a (GetEncryptedAnswer u) s = (Inr (Handle (getEncryptedAnswer s u)), s)
   \<and> exec fhe b (GetEncryptedAnswer u) (snd (exec fhe a (GetEncryptedAnswer u) s))
       = exec fhe a (GetEncryptedAnswer u) s"
  by simp

theorem getEncryptedAnswer_pure_read_witness:
  "exec fhe0 2 (GetEncryptedAnswer 1) after_one = (Inr (Handle 7), after_one)
   \<and> exec fhe0 3 (GetEncryptedAnswer 1) (snd (exec fhe0 2 (GetEncryptedAnswer 1) after_one))
       = (Inr (Handle 7), after_one)"
proof -
  have "getEncryptedAnswer after_one 1 = 7"
    by (simp add: getEncryptedAnswer_def after_one_def)
  with getEncryptedAnswer_pure_read [of fhe0 2 1 after_one 3] show ?thesis by simp
qed

section \<open>Properties of the codec\<close>

lemma split3: "(c::nat) = 0x1000 * (c div 0x1000) + (64 * ((c div 64) mod 64) + c mod 64)"
proof -
  have "c mod (64 * 64) = 64 * (c div 64 mod 64) + c mod 64" by (rule mod_mult2_eq)
  moreover have "c = 0x1000 * (c div 0x1000) + c mod 0x1000" by simp
  ultimately show ?thesis by simp
qed

lemma split4:
  "(p::nat) = 0x40000 * (p div 0x40000) + (0x1000 * ((p div 0x1000) mod 64) + (64 * ((p div 64) mod 64) + p mod 64))"
proof -
  have a: "p mod (0x1000 * 64) = 0x1000 * (p div 0x1000 mod 64) + p mod 0x1000" by (rule mod_mult2_eq)
  have b: "p mod (64 * 64) = 64 * (p div 64 mod 64) + p mod 64" by (rule mod_mult2_eq)
  have "p = 0x40000 * (p div 0x40000) + p mod 0x40000" by simp
  with a b show ?thesis by simp
qed

lemma dec2:
  assumes "0x80 \<le> c" "c < 0x800"
  shows "utf8Decode ((c div 64 + 0xC0) # (c mod 64 + 0x80) # bs) = c # utf8Decode bs"
proof -
  have "0xC2 \<le> c div 64 + 0xC0" "c div 64 + 0xC0 < 0xE0" using assms by arith+
  moreover have "cont (c mod 64 + 0x80)" by (simp add: cont_def)
  moreover have "(c div 64 + 0xC0 - 0xC0) * 64 + (c mod 64 + 0x80 - 0x80) = c" by simp
  ultimately show ?thesis by simp
qed

lemma dec3:
  assumes "0x800 \<le> c" "c < 0x10000" "\<not> is_high c" "\<not> is_low c"
  shows "utf8Decode ((c div 0x1000 + 0xE0) # ((c div 64) mod 64 + 0x80) # (c mod 64 + 0x80) # bs)
         = c # utf8Decode bs"
proof -
  define q m r where "q = c div 0x1000" and "m = (c div 64) mod 64" and "r = c mod 64"
  have c: "c = 0x1000 * q + (64 * m + r)" unfolding q_def m_def r_def by (rule split3)
  have bounds: "m < 64" "r < 64" by (simp_all add: m_def r_def)
  have q: "q < 16" using assms(2) c by linarith
  have r0: "\<not> q + 0xE0 < 0x80" "\<not> (0xC2 \<le> q + 0xE0 \<and> q + 0xE0 < 0xE0)" "0xE0 \<le> q + 0xE0" "q + 0xE0 < 0xF0"
    using q by simp_all
  have c1: "cont (m + 0x80)" and c2: "cont (r + 0x80)" using bounds by (simp_all add: cont_def)
  have "q = 0 \<Longrightarrow> 32 \<le> m" using assms(1) c bounds by linarith
  moreover have "q = 13 \<Longrightarrow> m < 32" using assms(3,4) c bounds unfolding is_high_def is_low_def by linarith
  ultimately have s3: "second3 (q + 0xE0) (m + 0x80)"
    using c1 unfolding second3_def cont_def by auto
  have v: "(q + 0xE0 - 0xE0) * 0x1000 + (m + 0x80 - 0x80) * 64 + (r + 0x80 - 0x80) = c"
    using c by simp
  have "utf8Decode ((q + 0xE0) # (m + 0x80) # (r + 0x80) # bs) = c # utf8Decode bs"
    using r0 c1 c2 s3 v by simp
  then show ?thesis by (simp add: q_def m_def r_def)
qed

lemma dec4:
  assumes "is_high c" "is_low c2" "p = 0x10000 + (c mod 0x400) * 0x400 + c2 mod 0x400"
  shows "utf8Decode ((p div 0x40000 + 0xF0) # ((p div 0x1000) mod 64 + 0x80)
            # ((p div 64) mod 64 + 0x80) # (p mod 64 + 0x80) # bs)
         = c # c2 # utf8Decode bs"
proof -
  define q m1 m2 r where "q = p div 0x40000" and "m1 = (p div 0x1000) mod 64"
    and "m2 = (p div 64) mod 64" and "r = p mod 64"
  have pe: "p = 0x40000 * q + (0x1000 * m1 + (64 * m2 + r))"
    unfolding q_def m1_def m2_def r_def by (rule split4)
  have bounds: "m1 < 64" "m2 < 64" "r < 64" by (simp_all add: m1_def m2_def r_def)
  have hl: "c mod 0x400 < 0x400" "c2 mod 0x400 < 0x400" by simp_all
  have p: "0x10000 \<le> p" "p < 0x110000" using assms(3) hl by linarith+
  have q: "q < 5" using p pe by linarith
  have r0: "\<not> q + 0xF0 < 0x80" "\<not> (0xC2 \<le> q + 0xF0 \<and> q + 0xF0 < 0xE0)"
      "\<not> (0xE0 \<le> q + 0xF0 \<and> q + 0xF0 < 0xF0)" "0xF0 \<le> q + 0xF0" "q + 0xF0 < 0xF5"
    using q by simp_all
  have c1: "cont (m1 + 0x80)" and c2: "cont (m2 + 0x80)" and c3: "cont (r + 0x80)"
    using bounds by (simp_all add: cont_def)
  have "q = 0 \<Longrightarrow> 16 \<le> m1" using p pe bounds by linarith
  moreover have "q = 4 \<Longrightarrow> m1 < 16" using p pe bounds by linarith
  ultimately have s4: "second4 (q + 0xF0) (m1 + 0x80)"
    using c1 unfolding second4_def cont_def by auto
  have v: "(q + 0xF0 - 0xF0) * 0x40000 + (m1 + 0x80 - 0x80) * 0x1000 + (m2 + 0x80 - 0x80) * 64 + (r + 0x80 - 0x80) = p"
    using pe by simp
  have ch: "c = 0xD800 + c mod 0x400"
  proof -
    have "c div 0x400 = 0x36" using assms(1) unfolding is_high_def by arith
    moreover have "c = 0x400 * (c div 0x400) + c mod 0x400" by simp
    ultimately show ?thesis by simp
  qed
  have cl: "c2 = 0xDC00 + c2 mod 0x400"
  proof -
    have "c2 div 0x400 = 0x37" using assms(2) unfolding is_low_def by arith
    moreover have "c2 = 0x400 * (c2 div 0x400) + c2 mod 0x400" by simp
    ultimately show ?thesis by simp
  qed
  have "p - 0x10000 = (c mod 0x400) * 0x400 + c2 mod 0x400" using assms(3) by simp
  then have "(p - 0x10000) div 0x400 = c mod 0x400" "(p - 0x10000) mod 0x400 = c2 mod 0x400"
    by simp_all
  with ch cl have s: "surrogates p = [c, c2]"
    unfolding surrogates_def by simp
  have "utf8Decode ((q + 0xF0) # (m1 + 0x80) # (m2 + 0x80) # (r + 0x80) # bs) = c # c2 # utf8Decode bs"
    using r0 c1 c2 c3 s4 v s by simp
  then show ?thesis by (simp add: q_def m1_def m2_def r_def)
qed


lemma dec1: "c < 0x80 \<Longrightarrow> utf8Decode (c # bs) = c # utf8Decode bs"
  by simp

lemma cont_byte: "(x::nat) mod 64 < 128"
proof -
  have "x mod 64 < 64" by simp
  then show ?thesis by linarith
qed

lemma emit_Inr: "emit ns (Inr bs) = Inr (ns @ bs)"
  by (simp add: emit_def)

lemma utf8_round_trip:
  "wellFormed cs \<Longrightarrow>
     \<exists>bs. utf8Encode cs = Inr bs \<and> utf8Decode bs = cs \<and> (\<forall>b\<in>set bs. b < 256)"
proof (induction cs rule: utf8Encode.induct)
  case 1
  then show ?case by simp
next
  case (2 c cs)
  show ?case
  proof (cases "is_high c")
    case True
    with "2.prems" obtain c2 cs' where cs: "cs = c2 # cs'" and low: "is_low c2" and wf: "wellFormed cs'"
      by (auto split: list.splits)
    from True have big: "\<not> c < 0x80" "\<not> c < 0x800" by (simp_all add: is_high_def)
    from "2.IH"(3) [OF big True cs low refl wf]
    obtain bs where enc: "utf8Encode cs' = Inr bs" and dec: "utf8Decode bs = cs'"
      and small: "\<forall>b\<in>set bs. b < 256" by blast
    define p where "p = 0x10000 + (c mod 0x400) * 0x400 + c2 mod 0x400"
    have "p < 0x110000"
    proof -
      have "c mod 0x400 < 0x400" "c2 mod 0x400 < 0x400" by simp_all
      then show ?thesis unfolding p_def by linarith
    qed
    then have "p div 0x40000 < 5" by simp
    then have b0: "p div 0x40000 + 0xF0 < 256" by simp
    have "utf8Encode (c # cs) = Inr ((p div 0x40000 + 0xF0) # ((p div 0x1000) mod 64 + 0x80)
            # ((p div 64) mod 64 + 0x80) # (p mod 64 + 0x80) # bs)"
      using big True cs low enc by (simp add: emit_Inr p_def Let_def)
    moreover have "utf8Decode ((p div 0x40000 + 0xF0) # ((p div 0x1000) mod 64 + 0x80)
            # ((p div 64) mod 64 + 0x80) # (p mod 64 + 0x80) # bs) = c # cs"
      using dec4 [OF True low p_def, of bs] dec cs by simp
    moreover have "\<forall>b\<in>set ((p div 0x40000 + 0xF0) # ((p div 0x1000) mod 64 + 0x80)
            # ((p div 64) mod 64 + 0x80) # (p mod 64 + 0x80) # bs). b < 256"
      using small b0 by (simp add: cont_byte)
    ultimately show ?thesis by blast
  next
    case False
    with "2.prems" have nl: "\<not> is_low c" and lt: "c < 0x10000" and wf: "wellFormed cs"
      by simp_all
    consider (one) "c < 0x80" | (two) "0x80 \<le> c" "c < 0x800" | (three) "0x800 \<le> c"
      by linarith
    then show ?thesis
    proof cases
      case one
      from "2.IH"(1) [OF one wf]
      obtain bs where enc: "utf8Encode cs = Inr bs" and dec: "utf8Decode bs = cs"
        and small: "\<forall>b\<in>set bs. b < 256" by blast
      have "utf8Encode (c # cs) = Inr (c # bs)" using one enc by (simp add: emit_Inr)
      moreover have "utf8Decode (c # bs) = c # cs" using dec1 [OF one, of bs] dec by simp
      moreover have "\<forall>b\<in>set (c # bs). b < 256" using small one by simp
      ultimately show ?thesis by blast
    next
      case two
      then have n1: "\<not> c < 0x80" by simp
      from "2.IH"(2) [OF n1 two(2) wf]
      obtain bs where enc: "utf8Encode cs = Inr bs" and dec: "utf8Decode bs = cs"
        and small: "\<forall>b\<in>set bs. b < 256" by blast
      have "c div 64 < 32" using two(2) by simp
      then have b0: "c div 64 + 0xC0 < 256" by simp
      have "utf8Encode (c # cs) = Inr ((c div 64 + 0xC0) # (c mod 64 + 0x80) # bs)"
        using n1 two enc by (simp add: emit_Inr)
      moreover have "utf8Decode ((c div 64 + 0xC0) # (c mod 64 + 0x80) # bs) = c # cs"
        using dec2 [OF two, of bs] dec by simp
      moreover have "\<forall>b\<in>set ((c div 64 + 0xC0) # (c mod 64 + 0x80) # bs). b < 256"
        using small b0 by (simp add: cont_byte)
      ultimately show ?thesis by blast
    next
      case three
      then have n1: "\<not> c < 0x80" and n2: "\<not> c < 0x800" by simp_all
      from "2.IH"(4) [OF n1 n2 False wf]
      obtain bs where enc: "utf8Encode cs = Inr bs" and dec: "utf8Decode bs = cs"
        and small: "\<forall>b\<in>set bs. b < 256" by blast
      have "c div 0x1000 < 16" using lt by simp
      then have b0: "c div 0x1000 + 0xE0 < 256" by simp
      have "utf8Encode (c # cs) = Inr ((c div 0x1000 + 0xE0) # ((c div 64) mod 64 + 0x80) # (c mod 64 + 0x80) # bs)"
        using n1 n2 False enc by (simp add: emit_Inr)
      moreover have "utf8Decode ((c div 0x1000 + 0xE0) # ((c div 64) mod 64 + 0x80) # (c mod 64 + 0x80) # bs) = c # cs"
        using dec3 [OF three lt False nl, of bs] dec by simp
      moreover have "\<forall>b\<in>set ((c div 0x1000 + 0xE0) # ((c div 64) mod 64 + 0x80) # (c mod 64 + 0x80) # bs). b < 256"
        using small b0 by (simp add: cont_byte)
      ultimately show ?thesis by blast
    qed
  qed
qed


lemma hexlify_nibbles: "hexlify data = ''0x'' @ map hexChar (nibbles data)"
  by (induction data) (simp_all add: hexlify_def nibbles_def)

lemma nibbles_Cons: "nibbles (b # data) = (unat b div 16) # (unat b mod 16) # nibbles data"
  by (simp add: nibbles_def)

lemma nibbles_lt: "d \<in> set (nibbles data) \<Longrightarrow> d < 16"
proof (induction data)
  case Nil
  then show ?case by (simp add: nibbles_def)
next
  case (Cons b data)
  have "unat b < 256" using unsigned_less [of b, where ?'a = nat] by simp
  then have "unat b div 16 < 16" by simp
  with Cons show ?case by (auto simp: nibbles_Cons)
qed

lemma length_nibbles: "length (nibbles data) = 2 * length data"
  by (induction data) (simp_all add: nibbles_Cons, simp add: nibbles_def)

lemma digitValue_hexChar:
  assumes "d < 16"
  shows "digitValue (hexChar d) = Some d"
proof -
  have "list_all (\<lambda>d. digitValue (hexChar d) = Some d) [0..<16]" by code_simp
  with assms show ?thesis by (simp add: list_all_iff)
qed

lemma hexChar_0: "hexChar 0 = CHR ''0''"
  by (simp add: hexChar_def)

lemma foldl_hexChar:
  "\<forall>d\<in>set ns. d < 16 \<Longrightarrow>
     foldl (\<lambda>acc ch. 16 * acc + int (the (digitValue ch))) a (map hexChar ns)
       = foldl (\<lambda>acc d. 16 * acc + int d) a ns"
  by (induction ns arbitrary: a) (simp_all add: digitValue_hexChar)

lemma BigInt_hex:
  assumes "ns \<noteq> []" and "\<forall>d\<in>set ns. d < 16"
  shows "BigInt (''0x'' @ map hexChar ns) = Inr (value16 ns)"
proof -
  have "list_all (\<lambda>ch. digitValue ch \<noteq> None) (map hexChar ns)"
    using assms(2) by (simp add: list_all_iff digitValue_hexChar)
  with assms foldl_hexChar [OF assms(2), of 0] show ?thesis
    by (simp add: BigInt_def value16_def)
qed

lemma value16_snoc: "value16 (ns @ [d]) = 16 * value16 ns + int d"
  by (simp add: value16_def)

lemma value16_nonneg: "0 \<le> value16 ns"
  by (induction ns rule: rev_induct) (simp_all add: value16_snoc, simp add: value16_def)

lemma value16_pos: "ns \<noteq> [] \<Longrightarrow> hd ns \<noteq> 0 \<Longrightarrow> 1 \<le> value16 ns"
proof (induction ns rule: rev_induct)
  case Nil
  then show ?case by simp
next
  case (snoc d ns)
  show ?case
  proof (cases "ns = []")
    case True
    with snoc.prems show ?thesis by (simp add: value16_def)
  next
    case False
    with snoc have "1 \<le> value16 ns" by simp
    then show ?thesis by (simp add: value16_snoc)
  qed
qed

lemma digits16_value16:
  "ns \<noteq> [] \<Longrightarrow> hd ns \<noteq> 0 \<Longrightarrow> \<forall>d\<in>set ns. d < 16 \<Longrightarrow> digits16 (value16 ns) = ns"
proof (induction ns rule: rev_induct)
  case Nil
  then show ?case by simp
next
  case (snoc d ns)
  from snoc.prems have d: "d < 16" by simp
  show ?case
  proof (cases "ns = []")
    case True
    with d show ?thesis by (simp add: value16_def digits16.simps)
  next
    case False
    with snoc have ih: "digits16 (value16 ns) = ns" and pos: "1 \<le> value16 ns"
      by (simp_all add: value16_pos)
    have "\<not> 16 * value16 ns + int d < 16" using pos by simp
    moreover have "(16 * value16 ns + int d) div 16 = value16 ns" using d by simp
    moreover have "nat ((16 * value16 ns + int d) mod 16) = d" using d by simp
    ultimately have "digits16 (16 * value16 ns + int d) = digits16 (value16 ns) @ [d]"
      by (subst digits16.simps) simp
    with ih show ?thesis by (simp add: value16_snoc)
  qed
qed

lemma value16_leading_zero: "value16 (0 # ns) = value16 ns"
  by (simp add: value16_def)

lemma Buffer_from_hex_nibbles: "Buffer_from_hex (map hexChar (nibbles data)) = data"
proof (induction data)
  case Nil
  then show ?case by (simp add: nibbles_def)
next
  case (Cons b data)
  have "unat b < 256" using unsigned_less [of b, where ?'a = nat] by simp
  then have "unat b div 16 < 16" by simp
  then have h: "digitValue (hexChar (unat b div 16)) = Some (unat b div 16)"
    by (rule digitValue_hexChar)
  have l: "digitValue (hexChar (unat b mod 16)) = Some (unat b mod 16)"
    by (rule digitValue_hexChar) simp
  have "(of_nat (16 * (unat b div 16) + unat b mod 16) :: 8 word) = b" by simp
  with Cons h l show ?case by (simp add: nibbles_Cons)
qed

lemma foldl_nibbles:
  "foldl (\<lambda>acc d. 16 * acc + int d) a (nibbles data) = foldl (\<lambda>acc b. 256 * acc + uint b) a data"
proof (induction data arbitrary: a)
  case Nil
  then show ?case by (simp add: nibbles_def)
next
  case (Cons b data)
  have step: "16 * (16 * a + int (unat b div 16)) + int (unat b mod 16) = 256 * a + uint b"
  proof -
    have "int (unat b) = uint b" by simp
    moreover have "int (unat b) = 16 * int (unat b div 16) + int (unat b mod 16)"
      by (simp add: zdiv_int zmod_int)
    ultimately show ?thesis by simp
  qed
  have "foldl (\<lambda>acc d. 16 * acc + int d) a (nibbles (b # data))
        = foldl (\<lambda>acc d. 16 * acc + int d)
            (16 * (16 * a + int (unat b div 16)) + int (unat b mod 16)) (nibbles data)"
    by (simp only: nibbles_Cons foldl_Cons)
  also have "\<dots> = foldl (\<lambda>acc d. 16 * acc + int d) (256 * a + uint b) (nibbles data)"
    by (simp only: step)
  also have "\<dots> = foldl (\<lambda>acc b. 256 * acc + uint b) (256 * a + uint b) data"
    by (rule Cons)
  finally show ?case by simp
qed

lemma value16_nibbles: "value16 (nibbles data) = be_value data"
  by (simp add: value16_def be_value_def foldl_nibbles)

lemma toString16_padded:
  assumes "b \<noteq> 0"
  shows "(let hex = toString16 (be_value (b # data))
          in if length hex mod 2 \<noteq> 0 then ''0'' @ hex else hex) = map hexChar (nibbles (b # data))"
proof -
  let ?h = "unat b div 16" and ?l = "unat b mod 16"
  have all: "\<forall>d\<in>set (nibbles (b # data)). d < 16" using nibbles_lt by blast
  have nn: "\<not> be_value (b # data) < 0"
    using value16_nonneg [of "nibbles (b # data)"] by (simp add: value16_nibbles)
  from assms have ub: "unat b \<noteq> 0" by (simp add: unat_0_iff)
  show ?thesis
  proof (cases "?h = 0")
    case False
    have "nibbles (b # data) \<noteq> []" "hd (nibbles (b # data)) \<noteq> 0"
      using False by (simp_all add: nibbles_Cons)
    then have "digits16 (value16 (nibbles (b # data))) = nibbles (b # data)"
      using all by (rule digits16_value16)
    then have "toString16 (be_value (b # data)) = map hexChar (nibbles (b # data))"
      using nn by (simp add: toString16_def value16_nibbles)
    then show ?thesis by (simp add: length_nibbles Let_def)
  next
    case True
    with ub have l: "?l \<noteq> 0" by arith
    have "?l # nibbles data \<noteq> []" "hd (?l # nibbles data) \<noteq> 0"
      using l by simp_all
    moreover have "\<forall>d\<in>set (?l # nibbles data). d < 16"
      using all by (simp add: nibbles_Cons)
    ultimately have "digits16 (value16 (?l # nibbles data)) = ?l # nibbles data"
      by (rule digits16_value16)
    moreover have "value16 (nibbles (b # data)) = value16 (?l # nibbles data)"
      using True by (simp add: nibbles_Cons value16_leading_zero)
    ultimately have "toString16 (be_value (b # data)) = map hexChar (?l # nibbles data)"
      using nn by (simp add: toString16_def value16_nibbles)
    then show ?thesis using True by (simp add: length_nibbles Let_def nibbles_Cons hexChar_0)
  qed
qed


lemma unat_byte: "n < 256 \<Longrightarrow> unat (of_nat n :: 8 word) = n"
  by (simp add: unat_of_nat)

lemma map_unat_bytes: "\<forall>b\<in>set bs. b < 256 \<Longrightarrow> map unat (map of_nat bs :: 8 word list) = bs"
  by (induction bs) (simp_all add: unat_byte)

lemma toUtf8Bytes_round_trip:
  assumes "wellFormedUtf16 t"
  shows "\<exists>data. toUtf8Bytes t = Inr data \<and> Buffer_toString_utf8 data = t"
proof -
  from assms obtain bs where enc: "utf8Encode (map unat t) = Inr bs"
    and dec: "utf8Decode bs = map unat t" and small: "\<forall>b\<in>set bs. b < 256"
    using utf8_round_trip [of "map unat t"] by (auto simp: wellFormedUtf16_def)
  have "toUtf8Bytes t = Inr (map of_nat bs)" using enc by (simp add: toUtf8Bytes_def)
  moreover have "Buffer_toString_utf8 (map of_nat bs) = t"
    using dec map_unat_bytes [OF small] by (simp add: Buffer_toString_utf8_def comp_def)
  ultimately show ?thesis by blast
qed

lemma stringToBigInt_value:
  assumes "toUtf8Bytes t = Inr data" and "data \<noteq> []"
  shows "stringToBigInt t = Inr (be_value data)"
proof -
  from assms(2) have "nibbles data \<noteq> []" by (cases data) (simp_all add: nibbles_Cons)
  moreover have "\<forall>d\<in>set (nibbles data). d < 16" using nibbles_lt by blast
  ultimately have "BigInt (''0x'' @ map hexChar (nibbles data)) = Inr (value16 (nibbles data))"
    by (rule BigInt_hex)
  with assms(1) show ?thesis
    by (simp add: stringToBigInt_def hexlify_nibbles value16_nibbles)
qed

lemma bigIntToString_value:
  assumes "b \<noteq> 0"
  shows "bigIntToString (be_value (b # data)) = Buffer_toString_utf8 (b # data)"
proof -
  have "bigIntToString (be_value (b # data))
        = Buffer_toString_utf8 (Buffer_from_hex
            (let hex = toString16 (be_value (b # data))
             in if length hex mod 2 \<noteq> 0 then ''0'' @ hex else hex))"
    by (simp add: bigIntToString_def Let_def)
  also have "\<dots> = Buffer_toString_utf8 (Buffer_from_hex (map hexChar (nibbles (b # data))))"
    by (simp only: toString16_padded [OF assms])
  finally show ?thesis by (simp only: Buffer_from_hex_nibbles)
qed

lemma round_trips_general:
  assumes "wellFormedUtf16 t" and "toUtf8Bytes t = Inr (b # data)" and "b \<noteq> 0"
  shows "round_trips t"
proof -
  from toUtf8Bytes_round_trip [OF assms(1)] assms(2)
  have "Buffer_toString_utf8 (b # data) = t" by simp
  with bigIntToString_value [OF assms(3), of data] stringToBigInt_value [OF assms(2)]
  show ?thesis by (simp add: round_trips_def)
qed

lemma ascii_encode:
  "\<forall>c\<in>set cs. c < 0x80 \<Longrightarrow> utf8Encode cs = Inr cs \<and> wellFormed cs"
  by (induction cs) (simp_all add: emit_Inr is_high_def is_low_def)

lemma round_trips_ascii:
  assumes "1 \<le> length t" and "\<forall>c\<in>set t. c < 0x80" and "hd t \<noteq> 0"
  shows "round_trips t"
proof -
  from assms(1) obtain c cs where t: "t = c # cs" by (cases t) simp_all
  have small: "\<forall>n\<in>set (map unat t). n < 0x80"
    using assms(2) by (simp add: word_less_nat_alt)
  from ascii_encode [OF small]
  have enc: "utf8Encode (map unat t) = Inr (map unat t)" and wf: "wellFormedUtf16 t"
    by (simp_all add: wellFormedUtf16_def)
  have bytes: "toUtf8Bytes t = Inr (of_nat (unat c) # map of_nat (map unat cs))"
    using enc t by (simp add: toUtf8Bytes_def)
  have "unat c < 0x80" using small t by simp
  then have "unat c < 256" by linarith
  then have "unat (of_nat (unat c) :: 8 word) = unat c" by (rule unat_byte)
  moreover have "unat c \<noteq> 0" using assms(3) t by (simp add: unat_0_iff)
  ultimately have "(of_nat (unat c) :: 8 word) \<noteq> 0" by (metis unat_0_iff)
  with wf bytes show ?thesis by (rule round_trips_general)
qed

lemma foldl_be_lower:
  "0 \<le> a \<Longrightarrow> a * 256 ^ length data \<le> foldl (\<lambda>acc b. 256 * acc + uint b) a data"
proof (induction data arbitrary: a)
  case Nil
  then show ?case by simp
next
  case (Cons b data)
  have nn: "0 \<le> 256 * a + uint b" using Cons.prems by simp
  have "a * 256 ^ length (b # data) = (256 * a) * 256 ^ length data" by simp
  also have "\<dots> \<le> (256 * a + uint b) * 256 ^ length data"
    by (rule mult_right_mono) simp_all
  also have "\<dots> \<le> foldl (\<lambda>acc b. 256 * acc + uint b) (256 * a + uint b) data"
    by (rule Cons.IH [OF nn])
  finally show ?case by simp
qed

lemma be_value_lower:
  assumes "b \<noteq> 0"
  shows "256 ^ length data \<le> be_value (b # data)"
proof -
  from assms have "uint b \<noteq> 0" by (simp add: uint_0_iff)
  then have one: "1 \<le> uint b" using uint_ge_0 [of b] by linarith
  have "1 * 256 ^ length data \<le> uint b * (256 ^ length data :: int)"
    using one by (rule mult_right_mono) simp
  also have "\<dots> \<le> be_value (b # data)"
    using foldl_be_lower [of "uint b" data] by (simp add: be_value_def)
  finally show ?thesis by simp
qed

lemma utf8Encode_cases:
  "utf8Encode cs = Inl InvalidArgument \<or> (\<exists>bs. utf8Encode cs = Inr bs \<and> (cs \<noteq> [] \<longrightarrow> bs \<noteq> []))"
proof (induction cs rule: utf8Encode.induct)
  case 1
  then show ?case by simp
next
  case (2 c cs)
  have step: "emit ns r = Inl InvalidArgument \<or> (\<exists>bs. emit ns r = Inr bs \<and> bs \<noteq> [])"
    if "ns \<noteq> []" and "r = Inl InvalidArgument \<or> (\<exists>bs. r = Inr bs \<and> Q bs)" for ns r Q
    using that by (auto simp: emit_def)
  consider (one) "c < 0x80" | (two) "\<not> c < 0x80" "c < 0x800"
    | (pair) "\<not> c < 0x80" "\<not> c < 0x800" "is_high c"
    | (three) "\<not> c < 0x80" "\<not> c < 0x800" "\<not> is_high c"
    by blast
  then show ?case
  proof cases
    case one
    with step [OF _ "2.IH"(1) [OF one], of "[c]"] show ?thesis by simp
  next
    case two
    with step [OF _ "2.IH"(2) [OF two], of "[c div 64 + 0xC0, c mod 64 + 0x80]"]
    show ?thesis by simp
  next
    case three
    with step [OF _ "2.IH"(4) [OF three],
        of "[c div 0x1000 + 0xE0, (c div 64) mod 64 + 0x80, c mod 64 + 0x80]"]
    show ?thesis by simp
  next
    case pair
    show ?thesis
    proof (cases cs)
      case Nil
      with pair show ?thesis by simp
    next
      case (Cons c2 cs')
      show ?thesis
      proof (cases "is_low c2")
        case False
        with pair Cons show ?thesis by simp
      next
        case True
        define p where "p = 0x10000 + (c mod 0x400) * 0x400 + c2 mod 0x400"
        from step [OF _ "2.IH"(3) [OF pair Cons True refl],
            of "[p div 0x40000 + 0xF0, (p div 0x1000) mod 64 + 0x80,
                 (p div 64) mod 64 + 0x80, p mod 64 + 0x80]"]
        show ?thesis using pair Cons True by (simp add: p_def Let_def)
      qed
    qed
  qed
qed

lemma stringToBigInt_SyntaxError_iff: "stringToBigInt t = Inl SyntaxError \<longleftrightarrow> t = []"
proof
  assume "t = []"
  then show "stringToBigInt t = Inl SyntaxError"
    by (simp add: stringToBigInt_def toUtf8Bytes_def hexlify_def BigInt_def)
next
  assume syn: "stringToBigInt t = Inl SyntaxError"
  show "t = []"
  proof (rule ccontr)
    assume "t \<noteq> []"
    then have ne: "map unat t \<noteq> []" by simp
    from utf8Encode_cases [of "map unat t"] show False
    proof
      assume "utf8Encode (map unat t) = Inl InvalidArgument"
      then have "stringToBigInt t = Inl InvalidArgument"
        by (simp add: stringToBigInt_def toUtf8Bytes_def)
      with syn show False by simp
    next
      assume "\<exists>bs. utf8Encode (map unat t) = Inr bs \<and> (map unat t \<noteq> [] \<longrightarrow> bs \<noteq> [])"
      with ne obtain bs where "utf8Encode (map unat t) = Inr bs" and "bs \<noteq> []" by blast
      then have "toUtf8Bytes t = Inr (map of_nat bs)" and "(map of_nat bs :: bytes) \<noteq> []"
        by (simp_all add: toUtf8Bytes_def)
      then have "stringToBigInt t = Inr (be_value (map of_nat bs))"
        by (rule stringToBigInt_value)
      with syn show False by simp
    qed
  qed
qed

lemma encode_ABCDE:
  "toUtf8Bytes (js ''ABCDE'') = Inr [0x41, 0x42, 0x43, 0x44, 0x45]"
  by (simp add: toUtf8Bytes_def js_def emit_def)

lemma encode_ABC:
  "toUtf8Bytes (js ''ABC'') = Inr [0x41, 0x42, 0x43] \<and> wellFormedUtf16 (js ''ABC'')"
  by (simp add: toUtf8Bytes_def js_def emit_def wellFormedUtf16_def is_high_def is_low_def)

lemma encode_euro:
  "toUtf8Bytes [0x20AC] = Inr [0xE2, 0x82, 0xAC] \<and> wellFormedUtf16 [0x20AC]"
  by (simp add: toUtf8Bytes_def emit_def wellFormedUtf16_def is_high_def is_low_def)

text \<open>
  C2 (as the claim states it, refuted). The text "ABCDE" has five UTF-8 bytes, more than
  the width \<open>W\<close> allows, and \<open>stringToBigInt\<close> returns a value for it: no error.
\<close>

theorem encode_too_long_counterexample:
  "toUtf8Bytes (js ''ABCDE'') = Inr [0x41, 0x42, 0x43, 0x44, 0x45]
   \<and> W < 8 * length [0x41, 0x42, 0x43, 0x44, 0x45 :: 8 word]
   \<and> stringToBigInt (js ''ABCDE'') = Inr 0x4142434445"
  by (simp add: stringToBigInt_def toUtf8Bytes_def js_def emit_def hexlify_def hexChar_def
      BigInt_def digitValue_def W_def)

text \<open>
  C2 (amended). The codec has no width check: for every text whose UTF-8 byte length
  times 8 exceeds \<open>W\<close>, \<open>stringToBigInt\<close> returns the big-endian integer of all its bytes,
  and this integer does not fit \<open>W\<close> bits when the first byte is not zero.
\<close>

theorem encode_has_no_width_check:
  assumes "toUtf8Bytes t = Inr data" and "W < 8 * length data"
  shows "stringToBigInt t = Inr (be_value data) \<and> (hd data \<noteq> 0 \<longrightarrow> 2 ^ W \<le> be_value data)"
proof -
  from assms(2) obtain b rest where data: "data = b # rest" by (cases data) simp_all
  from assms(2) data have len: "4 \<le> length rest" by (simp add: W_def)
  have "stringToBigInt t = Inr (be_value data)"
    using assms(1) data by (intro stringToBigInt_value) simp_all
  moreover have "2 ^ W \<le> be_value data" if "hd data \<noteq> 0"
  proof -
    from that data have "b \<noteq> 0" by simp
    then have "256 ^ length rest \<le> be_value data"
      unfolding data by (rule be_value_lower)
    moreover have "(256::int) ^ 4 \<le> 256 ^ length rest"
      using len by (intro power_increasing) simp_all
    ultimately show ?thesis by (simp add: W_def)
  qed
  ultimately show ?thesis by blast
qed

theorem encode_has_no_width_check_witness:
  "stringToBigInt (js ''ABCDE'') = Inr 0x4142434445 \<and> 2 ^ W \<le> (0x4142434445 :: int)"
proof -
  have w: "W < 8 * length [0x41, 0x42, 0x43, 0x44, 0x45 :: 8 word]" by (simp add: W_def)
  have v: "be_value [0x41, 0x42, 0x43, 0x44, 0x45] = 0x4142434445" by (simp add: be_value_def)
  from encode_has_no_width_check [OF encode_ABCDE w] v show ?thesis by simp
qed

text \<open>
  C3. For every text (a well-formed UTF-16 string) whose UTF-8 encoding starts with a
  byte that is not zero and takes at most \<open>W\<close> bits, decoding the encoded value gives the
  text back; the texts of 1 to 4 single-byte characters (code units below \<open>0x80\<close>), whose
  first byte is their first character, are an instance.
\<close>

theorem codec_round_trip:
  "(wellFormedUtf16 t \<and> toUtf8Bytes t = Inr (b # data) \<and> b \<noteq> 0 \<and> 8 * length (b # data) \<le> W
      \<longrightarrow> round_trips t)
   \<and> (1 \<le> length t \<and> length t \<le> 4 \<and> (\<forall>c\<in>set t. c < 0x80) \<and> hd t \<noteq> 0 \<longrightarrow> round_trips t)"
  using round_trips_general [of t b data] round_trips_ascii [of t] by blast

theorem codec_round_trip_witness:
  "round_trips (js ''ABC'') \<and> round_trips [0x20AC]
   \<and> stringToBigInt (js ''ABC'') = Inr 0x414243 \<and> bigIntToString 0x414243 = js ''ABC''"
proof -
  have w3: "8 * length [0x41, 0x42, 0x43 :: 8 word] \<le> W"
    and w3': "8 * length [0xE2, 0x82, 0xAC :: 8 word] \<le> W" by (simp_all add: W_def)
  have nz: "(0x41 :: 8 word) \<noteq> 0" "(0xE2 :: 8 word) \<noteq> 0" by simp_all
  have "round_trips (js ''ABC'')"
    using codec_round_trip [of "js ''ABC''" "0x41" "[0x42, 0x43]"] encode_ABC w3 nz by blast
  moreover have "round_trips [0x20AC]"
    using codec_round_trip [of "[0x20AC]" "0xE2" "[0x82, 0xAC]"] encode_euro w3' nz by blast
  moreover have "stringToBigInt (js ''ABC'') = Inr 0x414243"
    by (simp add: stringToBigInt_def toUtf8Bytes_def js_def emit_def hexlify_def hexChar_def
        BigInt_def digitValue_def)
  ultimately show ?thesis by (simp add: round_trips_def)
qed

section \<open>Properties of the orchestrator\<close>









lemma js_nonempty: "s \<noteq> [] \<Longrightarrow> js s \<noteq> []"
  by (simp add: js_def)

lemma submit_body_message_nonempty: "submit_body env answerString = Inr msg \<Longrightarrow> msg \<noteq> []"
  by (auto simp: submit_body_def getEncryptionMethodFor_def js_nonempty
      split: option.splits sum.splits if_splits)

lemma hook_guard: "answerString = [] \<or> captured \<Longrightarrow> hook_submitAnswer env captured answerString st = st"
  by (auto simp: hook_submitAnswer_def)

lemma hook_after_guard:
  assumes "answerString \<noteq> []" and "\<not> captured"
  shows "hook_submitAnswer env captured answerString st =
           (case submit_body env answerString of
              Inl err \<Rightarrow> \<lparr> message = [0x274C, 0x20] @ errorText env err, isProcessing = False \<rparr>
            | Inr msg \<Rightarrow> \<lparr> message = msg, isProcessing = False \<rparr>)"
  using assms by (cases st) (simp add: hook_submitAnswer_def submit_start_def split: sum.splits)

text \<open>
  C8 (as the claim states it, refuted). A call with the empty text on the idle hook
  returns the state it was given, whose message is empty: no failure reason is kept.
\<close>

theorem hook_empty_input_counterexample:
  "hook_submitAnswer env_ok False [] idle = idle \<and> message idle = []"
  by (simp add: hook_submitAnswer_def idle_def)

text \<open>
  C8 (amended). When the text is empty, \<open>submitAnswer\<close> of the hook is a silent no-op:
  the state, message included, is what it was, and no reason is recorded. A call with a
  text that is not empty, made on a hook that is not processing through the callback of
  that render, ends with the flag cleared and a non-empty message, and when its body
  throws, the message is the cross mark followed by the text of the error.
\<close>

theorem hook_submit_guard_and_failures:
  "hook_submitAnswer env captured [] st = st
   \<and> (answerString \<noteq> [] \<and> \<not> isProcessing st \<and> captured = isProcessing st \<longrightarrow>
        \<not> isProcessing (hook_submitAnswer env captured answerString st)
        \<and> message (hook_submitAnswer env captured answerString st) \<noteq> []
        \<and> (\<forall>err. submit_body env answerString = Inl err \<longrightarrow>
              message (hook_submitAnswer env captured answerString st)
                = [0x274C, 0x20] @ errorText env err))"
proof -
  have "\<not> isProcessing (hook_submitAnswer env captured answerString st)
        \<and> message (hook_submitAnswer env captured answerString st) \<noteq> []
        \<and> (\<forall>err. submit_body env answerString = Inl err \<longrightarrow>
              message (hook_submitAnswer env captured answerString st)
                = [0x274C, 0x20] @ errorText env err)"
    if "answerString \<noteq> []" and "\<not> captured"
  proof (cases "submit_body env answerString")
    case (Inl err)
    with hook_after_guard [OF that, of env st] show ?thesis by simp
  next
    case (Inr msg)
    with hook_after_guard [OF that, of env st] submit_body_message_nonempty [OF Inr]
    show ?thesis by simp
  qed
  then show ?thesis
    using hook_guard [of "[]" captured env st] by auto
qed

theorem hook_submit_guard_and_failures_witness:
  "hook_submitAnswer env_ok False [] idle = idle
   \<and> \<not> isProcessing (hook_submitAnswer env_revert False (js ''ABC'') idle)
   \<and> message (hook_submitAnswer env_revert False (js ''ABC'') idle)
       = [0x274C, 0x20] @ js ''Already answered''"
proof -
  have ne: "js ''ABC'' \<noteq> []" and np: "\<not> isProcessing idle" and same: "False = isProcessing idle"
    by (simp_all add: js_def idle_def)
  have enc: "stringToBigInt (js ''ABC'') = Inr 0x414243"
    by (simp add: stringToBigInt_def toUtf8Bytes_def js_def emit_def hexlify_def hexChar_def
        BigInt_def digitValue_def)
  have body: "submit_body env_revert (js ''ABC'') = Inl (Thrown (js ''Already answered''))"
    by (simp add: submit_body_def getEncryptionMethodFor_def env_revert_def env_ok_def enc)
      (simp add: js_def)
  have shown: "errorText env_revert (Thrown (js ''Already answered'')) = js ''Already answered''"
    by (simp add: env_revert_def env_ok_def)
  from hook_submit_guard_and_failures [of env_ok False idle]
  have "hook_submitAnswer env_ok False [] idle = idle" by simp
  moreover from hook_submit_guard_and_failures [of env_revert False idle "js ''ABC''"]
    ne np same body shown
  have "\<not> isProcessing (hook_submitAnswer env_revert False (js ''ABC'') idle)"
    and "message (hook_submitAnswer env_revert False (js ''ABC'') idle)
          = [0x274C, 0x20] @ js ''Already answered''"
    by simp_all
  ultimately show ?thesis by simp
qed

text \<open>
  C9. \<open>stringToBigInt\<close> on the empty string returns no value: it throws the SyntaxError of
  \<^verbatim>\<open>BigInt("0x")\<close>, which is no error of the codec's own, and the empty string is the only
  input on which it does. The hook never gets there: on the empty text its guard returns
  the state unchanged, whatever the collaborators would do and whichever render made the
  callback.
\<close>

theorem encode_empty_throws:
  "stringToBigInt [] = Inl SyntaxError
   \<and> (stringToBigInt t = Inl SyntaxError) = (t = [])
   \<and> hook_submitAnswer env captured [] st = st"
  using stringToBigInt_SyntaxError_iff [of t] stringToBigInt_SyntaxError_iff [of "[]"]
    hook_guard [of "[]" captured env st] by simp

theorem encode_empty_throws_witness:
  "stringToBigInt [] = Inl SyntaxError
   \<and> stringToBigInt (js ''A'') = Inr 0x41
   \<and> hook_submitAnswer env_ok False [] idle = idle
   \<and> hook_submitAnswer env_ok True [] idle = idle"
proof -
  have "stringToBigInt (js ''A'') = Inr 0x41"
    by (simp add: stringToBigInt_def toUtf8Bytes_def js_def emit_def hexlify_def hexChar_def
        BigInt_def digitValue_def)
  with encode_empty_throws [of "js ''A''" env_ok False idle]
    encode_empty_throws [of "js ''A''" env_ok True idle] show ?thesis by simp
qed



end
